theory Spec2Isabelle
  imports Complex_Main "HOL-Library.Log_Nat" "HOL-Library.Sublist" "HOL-Library.Multiset"
begin

section \<open>Python values used by the encoder\<close>

text \<open>
  The exceptions the modelled code can raise. Every \<open>raise\<close> of the source and of the
  Python operations it uses is a value \<open>Inl e\<close> of a result type \<open>py_error + 'a\<close>.
\<close>

datatype py_error =
    ZeroDivisionError
  | OverflowError
  | ValueError
  | KeyError
  | IndexError
  | TypeError
  | AttributeError
  | OSError
  | ParseError
  | RuntimeError int

subsection \<open>\<open>str(int)\<close>\<close>

definition digit_char :: "nat \<Rightarrow> char" where
  "digit_char d = ''0123456789'' ! d"

fun digits10 :: "nat \<Rightarrow> string" where
  "digits10 n = (if n < 10 then [digit_char n] else digits10 (n div 10) @ [digit_char (n mod 10)])"

declare digits10.simps [simp del]

definition str_int :: "int \<Rightarrow> string" where
  "str_int i = (if i < 0 then CHR ''-'' # digits10 (nat (- i)) else digits10 (nat i))"

subsection \<open>Binary64 floating point\<close>

text \<open>
  A finite Python \<open>float\<close> is the rational number it denotes. \<open>round_half_even\<close> is
  Python's \<open>round(x)\<close> on a float (ties go to the even integer); \<open>float_round\<close> is
  IEEE 754 round-to-nearest, ties-to-even, into binary64 (53-bit significand, least
  exponent \<open>-1074\<close>), with \<open>None\<close> when the rounded magnitude reaches \<open>2^1024\<close>.
\<close>

definition round_half_even :: "rat \<Rightarrow> int" where
  "round_half_even x =
     (let f = \<lfloor>x\<rfloor>; r = x - of_int f
      in if r < 1 / 2 then f else if 1 / 2 < r then f + 1 else if even f then f else f + 1)"

definition ilog2 :: "rat \<Rightarrow> int" where
  \<comment> \<open>\<open>\<lfloor>log\<^sub>2 x\<rfloor>\<close> for \<open>0 < x\<close>, computed on integers\<close>
  "ilog2 x = (if 1 \<le> x then bitlen \<lfloor>x\<rfloor> - 1 else - bitlen (\<lceil>1 / x\<rceil> - 1))"

definition float_round :: "rat \<Rightarrow> rat option" where
  "float_round x =
     (if x = 0 then Some 0
      else let e = max (ilog2 \<bar>x\<bar> - 52) (- 1074);
               y = of_int (round_half_even (x / 2 powi e)) * 2 powi e
           in if 2 powi 1024 \<le> \<bar>y\<bar> then None else Some y)"

datatype pyfloat = Finite rat | PosInf | NegInf | NaN

text \<open>\<open>a / b\<close> on Python ints: the correctly rounded quotient, or an exception.\<close>

definition py_truediv :: "int \<Rightarrow> int \<Rightarrow> py_error + rat" where
  "py_truediv a b =
     (if b = 0 then Inl ZeroDivisionError
      else case float_round (of_int a / of_int b) of
             None \<Rightarrow> Inl OverflowError
           | Some y \<Rightarrow> Inr y)"

text \<open>\<open>x * y\<close> on finite floats: the correctly rounded product, or an infinity.\<close>

definition float_mul :: "rat \<Rightarrow> rat \<Rightarrow> pyfloat" where
  "float_mul x y =
     (case float_round (x * y) of
        Some z \<Rightarrow> Finite z
      | None \<Rightarrow> if 0 < x * y then PosInf else NegInf)"

text \<open>\<open>float(i)\<close> on a Python int.\<close>

definition float_of_int :: "int \<Rightarrow> py_error + rat" where
  "float_of_int i = (case float_round (of_int i) of None \<Rightarrow> Inl OverflowError | Some y \<Rightarrow> Inr y)"

text \<open>\<open>i * x\<close> with an int \<open>i\<close> and a finite float \<open>x\<close>.\<close>

definition int_mul_float :: "int \<Rightarrow> rat \<Rightarrow> py_error + pyfloat" where
  "int_mul_float i x = (case float_of_int i of Inl e \<Rightarrow> Inl e | Inr y \<Rightarrow> Inr (float_mul y x))"

text \<open>\<open>int(round(x))\<close> on a float.\<close>

definition py_round :: "pyfloat \<Rightarrow> py_error + int" where
  "py_round x =
     (case x of
        Finite q \<Rightarrow> Inr (round_half_even q)
      | NaN \<Rightarrow> Inl ValueError
      | _ \<Rightarrow> Inl OverflowError)"

section \<open>The ladder builder (encode.py)\<close>

type_synonym rendition = "int \<times> int \<times> int \<times> string"

definition width :: "rendition \<Rightarrow> int" where "width t = fst t"
definition height :: "rendition \<Rightarrow> int" where "height t = fst (snd t)"
definition bitrate :: "rendition \<Rightarrow> int" where "bitrate t = fst (snd (snd t))"
definition label :: "rendition \<Rightarrow> string" where "label t = snd (snd (snd t))"

definition RES_MAP :: "string \<rightharpoonup> int \<times> int \<times> int" where
  "RES_MAP = map_of
     [(''2160'', (3840, 2160, 12000000)),
      (''1440'', (2560, 1440, 8000000)),
      (''1080'', (1920, 1080, 5000000)),
      (''720'', (1280, 720, 2800000)),
      (''480'', (854, 480, 1400000))]"

definition even_floor :: "int \<Rightarrow> int" where
  \<comment> \<open>\<open>even\<close> of the source\<close>
  "even_floor x = (if x mod 2 = 0 then x else x - 1)"

text \<open>The loop of the \<open>source\<close> branch; the first exception ends it.\<close>

fun source_targets :: "rat \<Rightarrow> string list \<Rightarrow> py_error + rendition list" where
  "source_targets ar [] = Inr []"
| "source_targets ar (r # rs) =
     (case RES_MAP r of
        None \<Rightarrow> source_targets ar rs
      | Some (W0, H0, br) \<Rightarrow>
          (case int_mul_float H0 ar of
             Inl e \<Rightarrow> Inl e
           | Inr p \<Rightarrow>
               (case py_round p of
                  Inl e \<Rightarrow> Inl e
                | Inr n \<Rightarrow>
                    (case source_targets ar rs of
                       Inl e \<Rightarrow> Inl e
                     | Inr t \<Rightarrow> Inr ((even_floor n, H0, br, str_int H0 @ ''p'') # t)))))"

text \<open>The loop of the \<open>fixed\<close> branch.\<close>

fun fixed_targets :: "string list \<Rightarrow> rendition list" where
  "fixed_targets [] = []"
| "fixed_targets (r # rs) =
     (case RES_MAP r of
        None \<Rightarrow> fixed_targets rs
      | Some (w, h, br) \<Rightarrow> (w, h, br, str_int h @ ''p'') # fixed_targets rs)"

text \<open>
  \<open>t.sort(key=lambda x: x[1], reverse=True)\<close>: a stable sort of the reversed list,
  reversed again, so that entries with equal keys keep their order.
\<close>

definition sort_height_desc :: "rendition list \<Rightarrow> rendition list" where
  "sort_height_desc t = rev (sort_key height (rev t))"

definition build_targets :: "string list \<Rightarrow> string \<Rightarrow> int \<Rightarrow> int \<Rightarrow> py_error + rendition list" where
  "build_targets renditions mode src_w src_h =
     (if mode = ''source'' then
        (case (if src_h \<noteq> 0 then py_truediv src_w src_h else py_truediv 16 9) of
           Inl e \<Rightarrow> Inl e
         | Inr ar \<Rightarrow>
             (case source_targets ar renditions of
                Inl e \<Rightarrow> Inl e
              | Inr t \<Rightarrow> Inr (sort_height_desc t)))
      else Inr (sort_height_desc (fixed_targets renditions)))"

text \<open>
  What a request asks for, in the words of the specification: the canonical height,
  bitrate and label of every requested key that \<open>RES_MAP\<close> knows, one for each time
  the key is requested; \<open>ladder_entry\<close> reads the same three fields off a rendition.
\<close>

definition ladder_entry :: "rendition \<Rightarrow> int \<times> int \<times> string" where
  "ladder_entry t = (height t, bitrate t, label t)"

definition requested_entries :: "string list \<Rightarrow> (int \<times> int \<times> string) list" where
  "requested_entries rs =
     List.map_filter (\<lambda>r. map_option (\<lambda>(w, h, br). (h, br, str_int h @ ''p'')) (RES_MAP r)) rs"

definition known_keys :: "string list \<Rightarrow> string list" where
  "known_keys rs = filter (\<lambda>r. RES_MAP r \<noteq> None) rs"

section \<open>Strings\<close>

text \<open>\<open>sep.join(xs)\<close> and \<open>s.split(c)\<close> for a one-character separator.\<close>

fun join :: "string \<Rightarrow> string list \<Rightarrow> string" where
  "join sep [] = []"
| "join sep [x] = x"
| "join sep (x # y # ys) = x @ sep @ join sep (y # ys)"

fun split_on :: "char \<Rightarrow> string \<Rightarrow> string list" where
  "split_on c [] = [[]]"
| "split_on c (x # xs) =
     (if x = c then [] # split_on c xs
      else case split_on c xs of
             [] \<Rightarrow> [[x]]
           | y # ys \<Rightarrow> (x # y) # ys)"

text \<open>
  The number of places at which \<open>pat\<close> occurs in \<open>s\<close>, and the absence of a character
  \<open>a\<close> immediately followed by \<open>b\<close>.
\<close>

fun occurrences :: "string \<Rightarrow> string \<Rightarrow> nat" where
  "occurrences pat [] = (if pat = [] then 1 else 0)"
| "occurrences pat (x # xs) = (if prefix pat (x # xs) then 1 else 0) + occurrences pat xs"

fun nopair :: "char \<Rightarrow> char \<Rightarrow> string \<Rightarrow> bool" where
  "nopair a b [] = True"
| "nopair a b (x # s) =
     ((if x = a then (case s of [] \<Rightarrow> True | y # _ \<Rightarrow> y \<noteq> b) else True) \<and> nopair a b s)"

section \<open>The filter graph builder (encode.py)\<close>

definition split_label :: "nat \<Rightarrow> string" where
  "split_label i = ''[v'' @ str_int (int i) @ '']''"

definition out_label :: "nat \<Rightarrow> string" where
  "out_label i = ''v'' @ str_int (int i) @ ''o''"

definition scale_chain :: "nat \<Rightarrow> rendition \<Rightarrow> string" where
  "scale_chain i t =
     (case t of (w, h, br, name) \<Rightarrow>
        ''[v'' @ str_int (int i) @ '']scale=w='' @ str_int w @ '':h='' @ str_int h
          @ '':flags=bicubic,format=yuv420p,setsar=1['' @ out_label i @ '']'')"

definition build_filter_complex_for_targets :: "rendition list \<Rightarrow> string \<times> string list" where
  "build_filter_complex_for_targets targets =
     (let n = length targets;
          split = ''[0:v]split='' @ str_int (int n) @ concat (map split_label [0..<n]);
          chains = map (\<lambda>(i, t). scale_chain i t) (enumerate 0 targets);
          out_labels = map (\<lambda>(i, t). out_label i) (enumerate 0 targets);
          fc = split @ '';'' @ join '';'' chains
      in (fc, out_labels))"

section \<open>The HLS master playlist (encode.py)\<close>

definition newline :: char where
  "newline = CHR 0x0A"

definition stream_inf :: "rendition \<Rightarrow> string" where
  "stream_inf t =
     (case t of (w, h, br, n) \<Rightarrow>
        ''#EXT-X-STREAM-INF:BANDWIDTH='' @ str_int (br + 128000)
          @ '',RESOLUTION='' @ str_int w @ ''x'' @ str_int h)"

definition playlist_ref :: "rendition \<Rightarrow> string" where
  "playlist_ref t = (case t of (w, h, br, n) \<Rightarrow> str_int h @ ''/index.m3u8'')"

definition hls_master_lines :: "rendition list \<Rightarrow> string list" where
  "hls_master_lines targets =
     [''#EXTM3U'', ''#EXT-X-VERSION:3''] @ concat (map (\<lambda>t. [stream_inf t, playlist_ref t]) targets)"

definition hls_master_text :: "rendition list \<Rightarrow> string" where
  "hls_master_text targets = join [newline] (hls_master_lines targets) @ [newline]"

section \<open>Parsing and printing numbers\<close>

text \<open>
  \<open>s.strip()\<close> removes white space at both ends; a character is a byte here, so the
  white space is the ASCII one. \<open>int(s)\<close> accepts white space around an optional sign
  and decimal digits, with single underscores between digits, and at most 4300 digits.
\<close>

definition is_space :: "char \<Rightarrow> bool" where
  "is_space c = (c \<in> set [CHR 0x09, CHR 0x0A, CHR 0x0B, CHR 0x0C, CHR 0x0D,
                            CHR 0x1C, CHR 0x1D, CHR 0x1E, CHR 0x1F, CHR 0x20])"

definition py_strip :: "string \<Rightarrow> string" where
  "py_strip s = rev (dropWhile is_space (rev (dropWhile is_space s)))"

definition is_digit :: "char \<Rightarrow> bool" where
  "is_digit c = (c \<in> set ''0123456789'')"

definition digit_val :: "char \<Rightarrow> nat" where
  "digit_val c = of_char c - 48"

fun digits_val :: "nat \<Rightarrow> string \<Rightarrow> nat option" where
  "digits_val acc [] = Some acc"
| "digits_val acc (c # cs) =
     (if is_digit c then digits_val (10 * acc + digit_val c) cs
      else if c = CHR ''_'' \<and> (case cs of [] \<Rightarrow> False | d # _ \<Rightarrow> is_digit d) then digits_val acc cs
      else None)"

definition parse_nat :: "string \<Rightarrow> nat option" where
  "parse_nat s =
     (case s of
        [] \<Rightarrow> None
      | c # _ \<Rightarrow> if is_digit c \<and> length (filter is_digit s) \<le> 4300 then digits_val 0 s else None)"

definition py_int :: "string \<Rightarrow> py_error + int" where
  "py_int s =
     (case py_strip s of
        [] \<Rightarrow> Inl ValueError
      | c # cs \<Rightarrow>
          if c = CHR ''-'' then (case parse_nat cs of None \<Rightarrow> Inl ValueError | Some n \<Rightarrow> Inr (- int n))
          else if c = CHR ''+'' then (case parse_nat cs of None \<Rightarrow> Inl ValueError | Some n \<Rightarrow> Inr (int n))
          else (case parse_nat (c # cs) of None \<Rightarrow> Inl ValueError | Some n \<Rightarrow> Inr (int n)))"

text \<open>
  \<open>f"{x:.2f}"\<close>: the exact value of the float, rounded to two decimals with ties to
  even, printed with its sign.
\<close>

definition two_digits :: "nat \<Rightarrow> string" where
  "two_digits n = [digit_char (n div 10), digit_char (n mod 10)]"

definition format_2f :: "pyfloat \<Rightarrow> string" where
  "format_2f x =
     (case x of
        Finite q \<Rightarrow>
          (let n = nat \<bar>round_half_even (q * 100)\<bar>
           in (if q < 0 then ''-'' else '''') @ digits10 (n div 100) @ ''.'' @ two_digits (n mod 100))
      | PosInf \<Rightarrow> ''inf''
      | NegInf \<Rightarrow> ''-inf''
      | NaN \<Rightarrow> ''nan'')"

text \<open>\<open>x < y\<close> on floats, and the two-argument \<open>min\<close> and \<open>max\<close> built on it.\<close>

fun float_less :: "pyfloat \<Rightarrow> pyfloat \<Rightarrow> bool" where
  "float_less (Finite a) (Finite b) = (a < b)"
| "float_less NaN _ = False"
| "float_less _ NaN = False"
| "float_less PosInf _ = False"
| "float_less _ PosInf = True"
| "float_less _ NegInf = False"
| "float_less NegInf _ = True"

definition py_min :: "pyfloat \<Rightarrow> pyfloat \<Rightarrow> pyfloat" where
  "py_min a b = (if float_less b a then b else a)"

definition py_max :: "pyfloat \<Rightarrow> pyfloat \<Rightarrow> pyfloat" where
  "py_max a b = (if float_less a b then b else a)"

section \<open>The progress translator (utils/ffmpegtools.py)\<close>

record progress =
  total_ms :: "int option"
  pr_base :: string
  pr_label :: string

text \<open>The percentage computed for a marker line, inside the \<open>try\<close>.\<close>

definition marker_percent :: "int option \<Rightarrow> string \<Rightarrow> py_error + pyfloat" where
  "marker_percent total_opt line =
     (case py_int (drop 1 (dropWhile (\<lambda>c. c \<noteq> CHR ''='') line)) of
        Inl e \<Rightarrow> Inl e
      | Inr out_ms \<Rightarrow>
          (case total_opt of
             None \<Rightarrow> Inr (Finite 0)
           | Some t \<Rightarrow>
               if t \<noteq> 0 \<and> 0 < t then
                 (case py_truediv out_ms t of
                    Inl e \<Rightarrow> Inl e
                  | Inr q \<Rightarrow> Inr (py_max (Finite 0) (py_min (Finite 100) (float_mul q 100))))
               else Inr (Finite 0)))"

text \<open>What one line read from the encoder makes \<open>run\<close> print.\<close>

definition handle_line :: "progress option \<Rightarrow> string \<Rightarrow> string list" where
  "handle_line prog raw =
     (let line = py_strip raw
      in case prog of
           None \<Rightarrow> [line]
         | Some pr \<Rightarrow>
             if prefix ''out_time_ms='' line then
               (case marker_percent (total_ms pr) line of
                  Inl e \<Rightarrow> []
                | Inr pct \<Rightarrow>
                    [''PROGRESS base='' @ pr_base pr @ '' rend='' @ pr_label pr
                       @ '' pct='' @ format_2f pct])
             else [line])"

definition run_progress :: "progress option \<Rightarrow> string list \<Rightarrow> int \<Rightarrow> string list \<times> (py_error + unit)" where
  \<comment> \<open>\<open>run\<close> of ffmpegtools.py on the lines the encoder writes and its return code\<close>
  "run_progress prog raws rc =
     (concat (map (handle_line prog) raws), if rc \<noteq> 0 then Inl (RuntimeError rc) else Inr ())"



section \<open>The geometry probers (encode.py)\<close>

text \<open>
  The value \<open>json.loads\<close> returns. A dictionary is the list of its members in the order
  of the text; a later member with the same key replaces an earlier one.
\<close>

datatype json =
    JNull
  | JBool bool
  | JInt int
  | JFloat pyfloat
  | JStr string
  | JArr "json list"
  | JObj "(string \<times> json) list"

definition truthy :: "json \<Rightarrow> bool" where
  "truthy v =
     (case v of
        JNull \<Rightarrow> False
      | JBool b \<Rightarrow> b
      | JInt n \<Rightarrow> n \<noteq> 0
      | JFloat x \<Rightarrow> x \<noteq> Finite 0
      | JStr s \<Rightarrow> s \<noteq> []
      | JArr xs \<Rightarrow> xs \<noteq> []
      | JObj kvs \<Rightarrow> kvs \<noteq> [])"

definition py_or :: "json \<Rightarrow> json \<Rightarrow> json" where
  \<comment> \<open>\<open>v or d\<close>\<close>
  "py_or v d = (if truthy v then v else d)"

definition subscript_key :: "json \<Rightarrow> string \<Rightarrow> py_error + json" where
  \<comment> \<open>\<open>v[key]\<close> with a string key\<close>
  "subscript_key v k =
     (case v of
        JObj kvs \<Rightarrow> (case map_of (rev kvs) k of None \<Rightarrow> Inl KeyError | Some x \<Rightarrow> Inr x)
      | _ \<Rightarrow> Inl TypeError)"

definition subscript_zero :: "json \<Rightarrow> py_error + json" where
  \<comment> \<open>\<open>v[0]\<close>\<close>
  "subscript_zero v =
     (case v of
        JArr xs \<Rightarrow> (case xs of [] \<Rightarrow> Inl IndexError | x # _ \<Rightarrow> Inr x)
      | JStr s \<Rightarrow> (case s of [] \<Rightarrow> Inl IndexError | c # _ \<Rightarrow> Inr (JStr [c]))
      | JObj kvs \<Rightarrow> Inl KeyError
      | _ \<Rightarrow> Inl TypeError)"

definition dict_get :: "json \<Rightarrow> string \<Rightarrow> py_error + json" where
  \<comment> \<open>\<open>v.get(key)\<close>\<close>
  "dict_get v k =
     (case v of
        JObj kvs \<Rightarrow> (case map_of (rev kvs) k of None \<Rightarrow> Inr JNull | Some x \<Rightarrow> Inr x)
      | _ \<Rightarrow> Inl AttributeError)"

definition json_strip :: "json \<Rightarrow> py_error + string" where
  \<comment> \<open>\<open>v.strip()\<close>\<close>
  "json_strip v = (case v of JStr s \<Rightarrow> Inr (py_strip s) | _ \<Rightarrow> Inl AttributeError)"

definition truncate :: "rat \<Rightarrow> int" where
  "truncate q = (if 0 \<le> q then \<lfloor>q\<rfloor> else \<lceil>q\<rceil>)"

definition json_int :: "json \<Rightarrow> py_error + int" where
  \<comment> \<open>\<open>int(v)\<close>\<close>
  "json_int v =
     (case v of
        JInt n \<Rightarrow> Inr n
      | JBool b \<Rightarrow> Inr (if b then 1 else 0)
      | JFloat x \<Rightarrow>
          (case x of
             Finite q \<Rightarrow> Inr (truncate q)
           | NaN \<Rightarrow> Inl ValueError
           | _ \<Rightarrow> Inl OverflowError)
      | JStr s \<Rightarrow> py_int s
      | _ \<Rightarrow> Inl TypeError)"

text \<open>\<open>Fraction.limit_denominator\<close>: the loop over the continued fraction, then the choice
  between the two candidates.\<close>

function ld_loop :: "int \<Rightarrow> int \<Rightarrow> int \<Rightarrow> int \<Rightarrow> int \<Rightarrow> int \<Rightarrow> int \<Rightarrow> py_error + int \<times> int \<times> int \<times> int" where
  "ld_loop mx p0 q0 p1 q1 n d =
     (if d \<le> 0 then Inl ZeroDivisionError
      else let a = n div d; q2 = q0 + a * q1
           in if mx < q2 then Inr (p0, q0, p1, q1)
              else ld_loop mx p1 q1 (p0 + a * p1) q2 d (n - a * d))"
  by pat_completeness auto
termination
proof (relation "measure (\<lambda>(mx, p0, q0, p1, q1, n, d). nat d)")
  show "wf (measure (\<lambda>(mx, p0, q0, p1, q1, n, d). nat d))" by simp
next
  fix mx p0 q0 p1 q1 n d :: int and a q2 :: int
  assume "\<not> d \<le> 0" "a = n div d"
  then have "n - a * d = n mod d" "0 \<le> n mod d" "n mod d < d"
    by (simp_all add: minus_div_mult_eq_mod)
  then show "((mx, p1, q1, p0 + a * p1, q2, d, n - a * d), (mx, p0, q0, p1, q1, n, d))
               \<in> measure (\<lambda>(mx, p0, q0, p1, q1, n, d). nat d)"
    by simp
qed

declare ld_loop.simps [simp del]

definition limit_denominator :: "rat \<Rightarrow> int \<Rightarrow> py_error + rat" where
  "limit_denominator r mx =
     (let (n, d) = quotient_of r
      in if mx < 1 then Inl ValueError
         else if d \<le> mx then Inr r
         else case ld_loop mx 0 1 1 0 n d of
                Inl e \<Rightarrow> Inl e
              | Inr (p0, q0, p1, q1) \<Rightarrow>
                  (let k = (mx - q0) div q1;
                       bound1 = Fract (p0 + k * p1) (q0 + k * q1);
                       bound2 = Fract p1 q1
                   in if \<bar>bound2 - r\<bar> \<le> \<bar>bound1 - r\<bar> then Inr bound2 else Inr bound1))"

text \<open>\<open>probe_src_wh\<close>: the body of the \<open>try\<close>, given what \<open>check_output\<close> did, and the
  function with its \<open>except\<close>.\<close>

definition probe_src_wh_body :: "py_error + string \<Rightarrow> py_error + int \<times> int" where
  "probe_src_wh_body proc =
     (case proc of
        Inl e \<Rightarrow> Inl e
      | Inr out \<Rightarrow>
          (case split_on CHR ''x'' (py_strip out) of
             [w, h] \<Rightarrow>
               (case py_int w of
                  Inl e \<Rightarrow> Inl e
                | Inr a \<Rightarrow> (case py_int h of Inl e \<Rightarrow> Inl e | Inr b \<Rightarrow> Inr (a, b)))
           | _ \<Rightarrow> Inl ValueError))"

definition probe_src_wh :: "py_error + string \<Rightarrow> py_error + int \<times> int" where
  "probe_src_wh proc =
     (case probe_src_wh_body proc of Inl e \<Rightarrow> Inr (1920, 1080) | Inr v \<Rightarrow> Inr v)"

text \<open>The sample aspect ratio, with the inner \<open>try\<close> of \<open>probe_dar\<close>.\<close>

definition parse_sar :: "string \<Rightarrow> int \<times> int" where
  "parse_sar sar =
     (case split_on CHR '':'' sar of
        [sn, sd] \<Rightarrow>
          (case py_int sn of
             Inl e \<Rightarrow> (1, 1)
           | Inr a \<Rightarrow>
               (case py_int sd of
                  Inl e \<Rightarrow> (1, 1)
                | Inr b \<Rightarrow> if a \<le> 0 \<or> b \<le> 0 then (1, 1) else (a, b)))
      | _ \<Rightarrow> (1, 1))"

definition dar_from_geometry :: "json \<Rightarrow> py_error + string" where
  "dar_from_geometry info =
     (case dict_get info ''width'' of Inl e \<Rightarrow> Inl e | Inr wv \<Rightarrow>
      case json_int (py_or wv (JInt 1920)) of Inl e \<Rightarrow> Inl e | Inr w \<Rightarrow>
      case dict_get info ''height'' of Inl e \<Rightarrow> Inl e | Inr hv \<Rightarrow>
      case json_int (py_or hv (JInt 1080)) of Inl e \<Rightarrow> Inl e | Inr h \<Rightarrow>
      case dict_get info ''sample_aspect_ratio'' of Inl e \<Rightarrow> Inl e | Inr sv \<Rightarrow>
      case json_strip (py_or sv (JStr ''1:1'')) of Inl e \<Rightarrow> Inl e | Inr sar \<Rightarrow>
        (let (sn, sd) = parse_sar sar
         in if h = 0 then Inl ZeroDivisionError
            else case limit_denominator (Fract w h * Fract sn sd) 1000 of
                   Inl e \<Rightarrow> Inl e
                 | Inr fr \<Rightarrow>
                     Inr (str_int (fst (quotient_of fr)) @ '':'' @ str_int (snd (quotient_of fr)))))"

definition probe_dar_body :: "(string \<Rightarrow> py_error + json) \<Rightarrow> py_error + string \<Rightarrow> py_error + string" where
  "probe_dar_body loads proc =
     (case proc of Inl e \<Rightarrow> Inl e | Inr out \<Rightarrow>
      case loads out of Inl e \<Rightarrow> Inl e | Inr j \<Rightarrow>
      case subscript_key j ''streams'' of Inl e \<Rightarrow> Inl e | Inr streams \<Rightarrow>
      case subscript_zero streams of Inl e \<Rightarrow> Inl e | Inr info \<Rightarrow>
      case dict_get info ''display_aspect_ratio'' of Inl e \<Rightarrow> Inl e | Inr dv \<Rightarrow>
      case json_strip (py_or dv (JStr [])) of Inl e \<Rightarrow> Inl e | Inr dar \<Rightarrow>
        if dar \<noteq> [] \<and> dar \<notin> set [''0:1'', ''N/A'', ''unknown''] then Inr dar
        else dar_from_geometry info)"

definition probe_dar :: "(string \<Rightarrow> py_error + json) \<Rightarrow> py_error + string \<Rightarrow> py_error + string" where
  "probe_dar loads proc =
     (case probe_dar_body loads proc of Inl e \<Rightarrow> Inr ''16:9'' | Inr d \<Rightarrow> Inr d)"

section \<open>The process and its surroundings\<close>

text \<open>
  A path is the list of its components. The state of a run is the directory tree (the
  set of directories and the files with their contents), the lines printed to standard
  output and standard error, and the number of operating-system calls made so far.
\<close>

type_synonym path = "string list"

record representation =
  rep_id :: "string option"
  rep_height :: "string option"
  rep_width :: "string option"

record adaptation_set =
  content_type :: "string option"
  mime_type :: "string option"
  representations :: "representation list"

record track =
  t_lang :: string
  t_label :: string
  t_src :: "string option"

record job_meta =
  job_input :: path
  job_outdir :: path
  job_codec :: string
  job_gpu :: bool
  job_renditions :: "string list"
  job_hls :: bool
  job_dash :: bool
  job_encrypt_hls :: bool
  job_finished_at :: string

record player_meta =
  pm_title :: string
  pm_codec :: string
  pm_duration_ms :: int
  pm_poster :: string
  pm_sources :: "(string \<times> string) list"
  pm_subtitles :: "track list"
  pm_thumbnails :: string
  pm_renditions :: "rendition list"

datatype content =
    Text string
  | Manifest "adaptation_set list"
  | JobJson job_meta
  | PlayerJson player_meta
  | Opaque

record world =
  dirs :: "path set"
  files :: "path \<rightharpoonup> content"
  out :: "string list"
  err :: "string list"
  ops :: nat

text \<open>
  How a computation ends: it returns, it raises an exception (one that \<open>except Exception\<close>
  catches), or it leaves through \<open>sys.exit\<close>, which \<open>except Exception\<close> does not catch.
\<close>

datatype 'a outcome = Return 'a | Raise py_error | Exit int

text \<open>
  Operating-system calls. Each call counts, and an oracle \<open>fail\<close> says for every count
  whether that call raises; otherwise the call raises exactly when the directory tree
  does not admit it.
\<close>

definition print_out :: "string \<Rightarrow> world \<Rightarrow> world" where
  "print_out s w = w\<lparr>out := out w @ [s]\<rparr>"

definition print_err :: "string \<Rightarrow> world \<Rightarrow> world" where
  "print_err s w = w\<lparr>err := err w @ [s]\<rparr>"

definition os_call :: "(nat \<Rightarrow> py_error option) \<Rightarrow> world \<Rightarrow> py_error option \<times> world" where
  "os_call fail w = (fail (ops w), w\<lparr>ops := Suc (ops w)\<rparr>)"

definition path_exists :: "world \<Rightarrow> path \<Rightarrow> bool" where
  "path_exists w p = (p \<in> dirs w \<or> files w p \<noteq> None)"

definition ensure_dir :: "(nat \<Rightarrow> py_error option) \<Rightarrow> path \<Rightarrow> world \<Rightarrow> unit outcome \<times> world" where
  \<comment> \<open>\<open>p.mkdir(parents=True, exist_ok=True)\<close>\<close>
  "ensure_dir fail p w =
     (case os_call fail w of
        (Some e, w1) \<Rightarrow> (Raise e, w1)
      | (None, w1) \<Rightarrow>
          if list_ex (\<lambda>q. files w1 q \<noteq> None) (prefixes p) then (Raise OSError, w1)
          else (Return (), w1\<lparr>dirs := dirs w1 \<union> set (prefixes p)\<rparr>))"

definition write_file :: "(nat \<Rightarrow> py_error option) \<Rightarrow> path \<Rightarrow> content \<Rightarrow> world \<Rightarrow> unit outcome \<times> world" where
  \<comment> \<open>\<open>p.write_text(..)\<close>, \<open>p.write_bytes(..)\<close>, \<open>open(p, "w")\<close> with the writes that follow\<close>
  "write_file fail p c w =
     (case os_call fail w of
        (Some e, w1) \<Rightarrow> (Raise e, w1)
      | (None, w1) \<Rightarrow>
          if p = [] \<or> butlast p \<notin> dirs w1 \<or> p \<in> dirs w1 then (Raise OSError, w1)
          else (Return (), w1\<lparr>files := (files w1)(p \<mapsto> c)\<rparr>))"

definition write_hls_master ::
  "(nat \<Rightarrow> py_error option) \<Rightarrow> path \<Rightarrow> string \<Rightarrow> rendition list \<Rightarrow> world \<Rightarrow> unit outcome \<times> world" where
  "write_hls_master fail hls_dir base targets w =
     write_file fail (hls_dir @ [base @ ''.m3u8'']) (Text (hls_master_text targets)) w"

definition chains_of :: "rendition list \<Rightarrow> string list" where
  "chains_of ts = map (\<lambda>(i, t). scale_chain i t) (enumerate 0 ts)"

definition split_stage :: "nat \<Rightarrow> string" where
  "split_stage n = ''[0:v]split='' @ str_int (int n) @ concat (map split_label [0..<n])"

(*DEFS-END*)

section \<open>Evaluation rules\<close>

lemma floor_rat_numeral: "\<lfloor>(numeral a :: rat) / numeral b\<rfloor> = numeral a div numeral b"
  by (metis floor_divide_of_int_eq of_int_numeral)

lemma ceiling_rat_numeral: "\<lceil>(numeral a :: rat) / numeral b\<rceil> = - (- numeral a div numeral b)"
  by (metis ceiling_def floor_divide_of_int_eq minus_divide_left of_int_minus of_int_numeral)

lemmas float_eval = floor_rat_numeral ceiling_rat_numeral compute_bitlen power_int_minus
  py_truediv_def float_round_def ilog2_def round_half_even_def
  int_mul_float_def float_of_int_def float_mul_def py_round_def Let_def

lemmas str_eval = str_int_def digits10.simps digit_char_def

lemmas ladder_eval = build_targets_def RES_MAP_def even_floor_def sort_height_desc_def
  height_def width_def bitrate_def label_def

section \<open>The ladder is sorted and holds the known requested keys\<close>

lemma fixed_targets_entries: "map ladder_entry (fixed_targets rs) = requested_entries rs"
  by (induction rs)
     (auto simp: requested_entries_def map_filter_simps ladder_entry_def height_def bitrate_def
        label_def split: option.splits)

lemma source_targets_entries:
  "source_targets ar rs = Inr t \<Longrightarrow> map ladder_entry t = requested_entries rs"
proof (induction rs arbitrary: t)
  case Nil
  then show ?case by (simp add: requested_entries_def map_filter_simps)
next
  case (Cons r rs)
  then show ?case
    by (auto simp: requested_entries_def map_filter_simps ladder_entry_def height_def bitrate_def
        label_def split: option.splits sum.splits)
qed

lemma sort_height_desc_mset: "mset (sort_height_desc t) = mset t"
  by (simp add: sort_height_desc_def)

lemma sort_height_desc_sorted: "sorted (rev (map height (sort_height_desc t)))"
  by (simp add: sort_height_desc_def rev_map [symmetric])

lemma build_targets_mset:
  assumes "build_targets rs mode w h = Inr t"
  shows "mset (map ladder_entry t) = mset (requested_entries rs)"
proof (cases "mode = ''source''")
  case True
  with assms obtain ar t0 where "source_targets ar rs = Inr t0" "t = sort_height_desc t0"
    by (auto simp: build_targets_def split: sum.splits if_splits)
  then show ?thesis
    using source_targets_entries [of ar rs t0]
    by (metis mset_map sort_height_desc_mset)
next
  case False
  with assms have "t = sort_height_desc (fixed_targets rs)"
    by (simp add: build_targets_def)
  then show ?thesis
    using fixed_targets_entries [of rs] by (metis mset_map sort_height_desc_mset)
qed

lemma build_targets_sorted:
  assumes "build_targets rs mode w h = Inr t"
  shows "sorted (rev (map height t))"
  using assms sort_height_desc_sorted
  by (auto simp: build_targets_def split: sum.splits if_splits)

lemma RES_MAP_cases:
  "RES_MAP r = Some v \<Longrightarrow>
     (r = ''2160'' \<and> v = (3840, 2160, 12000000)) \<or> (r = ''1440'' \<and> v = (2560, 1440, 8000000)) \<or>
     (r = ''1080'' \<and> v = (1920, 1080, 5000000)) \<or> (r = ''720'' \<and> v = (1280, 720, 2800000)) \<or>
     (r = ''480'' \<and> v = (854, 480, 1400000))"
  by (auto simp: RES_MAP_def split: if_splits)

lemma requested_entries_heights:
  "map fst (requested_entries rs) = map (\<lambda>r. fst (snd (the (RES_MAP r)))) (known_keys rs)"
  by (induction rs)
     (auto simp: requested_entries_def known_keys_def map_filter_simps split: option.splits)

lemma canon_height_inj:
  "RES_MAP r = Some v \<Longrightarrow> RES_MAP r' = Some v' \<Longrightarrow> fst (snd v) = fst (snd v') \<Longrightarrow> r = r'"
  by (drule RES_MAP_cases, drule RES_MAP_cases) auto

lemma requested_heights_distinct:
  assumes "distinct (known_keys rs)"
  shows "distinct (map fst (requested_entries rs))"
proof -
  have "inj_on (\<lambda>r. fst (snd (the (RES_MAP r)))) (set (known_keys rs))"
  proof (rule inj_onI)
    fix x y
    assume "x \<in> set (known_keys rs)" "y \<in> set (known_keys rs)"
      and eq: "fst (snd (the (RES_MAP x))) = fst (snd (the (RES_MAP y)))"
    then obtain v v' where "RES_MAP x = Some v" "RES_MAP y = Some v'"
      by (auto simp: known_keys_def)
    with eq show "x = y" using canon_height_inj [of x v y v'] by simp
  qed
  with assms show ?thesis
    by (simp add: requested_entries_heights distinct_map)
qed

lemma build_targets_strict:
  assumes "build_targets rs mode w h = Inr t" and "distinct (known_keys rs)"
  shows "sorted_wrt (>) (map height t) \<and> distinct t"
proof -
  have "mset (map height t) = mset (map fst (requested_entries rs))"
  proof -
    have "map height t = map fst (map ladder_entry t)"
      by (simp add: ladder_entry_def)
    then show ?thesis
      using build_targets_mset [OF assms(1)] by (metis mset_map)
  qed
  then have d: "distinct (map height t)"
    using requested_heights_distinct [OF assms(2)] by (metis mset_eq_imp_distinct_iff)
  then have "distinct (rev (map height t))" by simp
  with build_targets_sorted [OF assms(1)] have "sorted_wrt (<) (rev (map height t))"
    by (simp add: strict_sorted_iff)
  then have "sorted_wrt (>) (map height t)"
    by (simp add: sorted_wrt_rev)
  moreover from d have "distinct t" by (metis distinct_map)
  ultimately show ?thesis by simp
qed

text \<open>
  Claim C1, as the code has it. Whenever \<open>build_targets\<close> returns a ladder, the ladder
  is sorted by descending height; its entries are exactly the canonical height, bitrate
  and label of the requested keys that \<open>RES_MAP\<close> knows, one entry for each time such a
  key is requested, so an unknown key contributes nothing; and when no known key is
  requested twice the heights are strictly descending and no entry is repeated.
\<close>

theorem build_targets_ladder:
  assumes "build_targets rs mode src_w src_h = Inr t"
  shows "sorted (rev (map height t))
       \<and> mset (map ladder_entry t) = mset (requested_entries rs)
       \<and> (distinct (known_keys rs) \<longrightarrow> sorted_wrt (>) (map height t) \<and> distinct t)"
  using build_targets_sorted [OF assms] build_targets_mset [OF assms] build_targets_strict [OF assms]
  by blast

theorem build_targets_ladder_witness:
  "build_targets [''480'', ''9999'', ''1080''] ''fixed'' 1920 1080
     = Inr [(1920, 1080, 5000000, ''1080p''), (854, 480, 1400000, ''480p'')]
   \<and> distinct (known_keys [''480'', ''9999'', ''1080''])
   \<and> sorted (rev (map height [(1920, 1080, 5000000, ''1080p''), (854, 480, 1400000, ''480p'')]))
   \<and> mset (map ladder_entry [(1920, 1080, 5000000, ''1080p''), (854, 480, 1400000, ''480p'')])
       = mset (requested_entries [''480'', ''9999'', ''1080''])
   \<and> sorted_wrt (>) (map height [(1920, 1080, 5000000, ''1080p''), (854, 480, 1400000, ''480p'')])
   \<and> distinct [(1920::int, 1080::int, 5000000::int, ''1080p''), (854, 480, 1400000, ''480p'')]"
proof -
  have h: "build_targets [''480'', ''9999'', ''1080''] ''fixed'' 1920 1080
     = Inr [(1920, 1080, 5000000, ''1080p''), (854, 480, 1400000, ''480p'')]"
    by (simp add: ladder_eval str_eval)
  have d: "distinct (known_keys [''480'', ''9999'', ''1080''])"
    by (simp add: known_keys_def RES_MAP_def)
  from build_targets_ladder [OF h] d h show ?thesis
    by simp
qed

text \<open>
  The ladder is not deduplicated: a key requested twice gives two equal entries, so the
  heights do not descend strictly.
\<close>

theorem build_targets_duplicates_counterexample:
  "build_targets [''720'', ''720''] ''fixed'' 1920 1080
     = Inr [(1280, 720, 2800000, ''720p''), (1280, 720, 2800000, ''720p'')]
   \<and> \<not> sorted_wrt (>) (map height [(1280, 720, 2800000, ''720p''), (1280, 720, 2800000, ''720p'')])
   \<and> \<not> distinct [(1280::int, 720::int, 2800000::int, ''720p''), (1280, 720, 2800000, ''720p'')]"
  by (simp add: ladder_eval str_eval)

section \<open>No division by zero in the ladder builder\<close>













section \<open>Decimal strings, splitting and joining\<close>

lemma digit_char_digit: "d < 10 \<Longrightarrow> digit_char d \<in> set ''0123456789''"
  unfolding digit_char_def by (rule nth_mem) simp

lemma digits10_chars: "c \<in> set (digits10 n) \<Longrightarrow> c \<in> set ''0123456789''"
proof (induction n rule: digits10.induct)
  case (1 n)
  show ?case
  proof (cases "n < 10")
    case True
    with "1.prems" digit_char_digit [of n] show ?thesis
      by (simp add: digits10.simps [of n])
  next
    case False
    have "n mod 10 < 10" by simp
    from digit_char_digit [OF this] "1.prems" "1.IH" False show ?thesis
      by (auto simp: digits10.simps [of n])
  qed
qed

lemma digits10_nonempty: "digits10 n \<noteq> []"
  by (simp add: digits10.simps [of n])

lemma str_int_chars: "c \<in> set (str_int i) \<Longrightarrow> c \<in> set ''-0123456789''"
proof -
  assume a: "c \<in> set (str_int i)"
  have sub: "\<And>x. x \<in> set ''0123456789'' \<Longrightarrow> x \<in> set ''-0123456789''" by simp
  have minus: "CHR ''-'' \<in> set ''-0123456789''" by simp
  show ?thesis
  proof (cases "i < 0")
    case True
    with a have "c = CHR ''-'' \<or> c \<in> set (digits10 (nat (- i)))"
      by (simp add: str_int_def)
    then show ?thesis
      using minus sub digits10_chars by blast
  next
    case False
    with a have "c \<in> set (digits10 (nat i))"
      by (simp add: str_int_def)
    then show ?thesis
      using sub digits10_chars by blast
  qed
qed

lemma not_in_str_int [simp]: "c \<notin> set ''-0123456789'' \<Longrightarrow> c \<notin> set (str_int i)"
  using str_int_chars by blast

lemma str_int_nonempty: "str_int i \<noteq> []"
  by (simp add: str_int_def digits10_nonempty)

lemma str_int_hd: "\<exists>c r. str_int i = c # r \<and> c \<in> set ''-0123456789''"
proof -
  obtain c r where cr: "str_int i = c # r"
    using str_int_nonempty [of i] by (cases "str_int i") auto
  then have "c \<in> set (str_int i)" by simp
  with cr str_int_chars show ?thesis by blast
qed

lemma split_on_free: "c \<notin> set u \<Longrightarrow> split_on c u = [u]"
  by (induction u) auto

lemma split_on_append: "c \<notin> set u \<Longrightarrow> split_on c (u @ c # t) = u # split_on c t"
  by (induction u) auto

lemma split_on_join:
  "xs \<noteq> [] \<Longrightarrow> \<forall>x \<in> set xs. c \<notin> set x \<Longrightarrow> split_on c (join [c] xs) = xs"
proof (induction xs)
  case Nil
  then show ?case by simp
next
  case (Cons x xs)
  show ?case
  proof (cases xs)
    case Nil
    with Cons.prems show ?thesis by (simp add: split_on_free)
  next
    case (Cons y ys)
    with Cons.prems Cons.IH show ?thesis by (simp add: split_on_append)
  qed
qed

lemma nopair_free_append: "a \<notin> set u \<Longrightarrow> nopair a b (u @ t) = nopair a b t"
  by (induction u) auto

lemma nopair_str_int [simp]:
  "a \<notin> set ''-0123456789'' \<Longrightarrow> nopair a b (str_int i @ t) = nopair a b t"
  by (rule nopair_free_append) (rule not_in_str_int)

lemma occurrences_nopair: "nopair a b s \<Longrightarrow> occurrences (a # b # pat) s = 0"
proof (induction s)
  case Nil
  then show ?case by simp
next
  case (Cons x s)
  then have "\<not> prefix (a # b # pat) (x # s)"
    by (cases s) (auto split: if_splits)
  with Cons show ?case by simp
qed

section \<open>One decode, one split, N scaling chains\<close>

lemma nopair_concat:
  "(\<And>c u. c \<in> set cs \<Longrightarrow> nopair a b (c @ u) = nopair a b u)
     \<Longrightarrow> nopair a b (concat cs @ u) = nopair a b u"
  by (induction cs) simp_all

lemma nopair_join:
  assumes "\<And>c u. c \<in> set cs \<Longrightarrow> nopair a b (c @ u) = nopair a b u" and "sep \<noteq> a"
  shows "nopair a b (join [sep] cs @ u) = nopair a b u"
  using assms(1)
proof (induction cs)
  case Nil
  show ?case by simp
next
  case (Cons x xs)
  show ?case
  proof (cases xs)
    case Nil
    with Cons.prems show ?thesis by simp
  next
    case (Cons y ys)
    have "nopair a b (join [sep] (x # xs) @ u) = nopair a b (x @ sep # (join [sep] xs @ u))"
      using Cons by simp
    also have "\<dots> = nopair a b (sep # (join [sep] xs @ u))"
      using Cons.prems by simp
    also have "\<dots> = nopair a b (join [sep] xs @ u)"
      using assms(2) by simp
    also have "\<dots> = nopair a b u"
      using Cons.IH Cons.prems by simp
    finally show ?thesis .
  qed
qed

lemma semi_split_label: "CHR '';'' \<notin> set (split_label i)"
  by (simp add: split_label_def)

lemma semi_scale_chain: "CHR '';'' \<notin> set (scale_chain i t)"
  by (cases t) (simp add: scale_chain_def out_label_def)

lemma source_pad_label: "nopair CHR ''['' CHR ''0'' (split_label i @ u) = nopair CHR ''['' CHR ''0'' u"
  by (simp add: split_label_def)

lemma source_pad_chain: "nopair CHR ''['' CHR ''0'' (scale_chain i t @ u) = nopair CHR ''['' CHR ''0'' u"
  by (cases t) (simp add: scale_chain_def out_label_def)

lemma split_word_label: "nopair CHR ''s'' CHR ''p'' (split_label i @ u) = nopair CHR ''s'' CHR ''p'' u"
  by (simp add: split_label_def)

lemma split_word_chain: "nopair CHR ''s'' CHR ''p'' (scale_chain i t @ u) = nopair CHR ''s'' CHR ''p'' u"
  by (cases t) (simp add: scale_chain_def out_label_def)

lemma filter_complex_text:
  "fst (build_filter_complex_for_targets ts)
     = split_stage (length ts) @ CHR '';'' # join '';'' (chains_of ts)"
  by (simp add: build_filter_complex_for_targets_def Let_def chains_of_def split_stage_def)

lemma semi_split_stage: "CHR '';'' \<notin> set (split_stage n)"
  using semi_split_label by (auto simp: split_stage_def)

lemma semi_chains: "\<forall>c \<in> set (chains_of ts). CHR '';'' \<notin> set c"
  using semi_scale_chain by (auto simp: chains_of_def)

lemma filter_complex_stages:
  assumes "ts \<noteq> []"
  shows "split_on CHR '';'' (fst (build_filter_complex_for_targets ts))
           = split_stage (length ts) # chains_of ts"
proof -
  from assms have "chains_of ts \<noteq> []" by (cases ts) (simp_all add: chains_of_def)
  then have "split_on CHR '';'' (join '';'' (chains_of ts)) = chains_of ts"
    using split_on_join [of "chains_of ts" "CHR '';''"] semi_chains by simp
  then show ?thesis
    by (simp add: filter_complex_text split_on_append [OF semi_split_stage])
qed

lemma chains_source_pad:
  "nopair CHR ''['' CHR ''0'' (join '';'' (chains_of ts) @ u) = nopair CHR ''['' CHR ''0'' u"
  by (rule nopair_join) (auto simp: chains_of_def source_pad_chain)

lemma chains_split_word:
  "nopair CHR ''s'' CHR ''p'' (join '';'' (chains_of ts) @ u) = nopair CHR ''s'' CHR ''p'' u"
  by (rule nopair_join) (auto simp: chains_of_def split_word_chain)

lemma labels_source_pad:
  "nopair CHR ''['' CHR ''0'' (concat (map split_label is) @ u) = nopair CHR ''['' CHR ''0'' u"
  by (rule nopair_concat) (auto simp: source_pad_label)

lemma labels_split_word:
  "nopair CHR ''s'' CHR ''p'' (concat (map split_label is) @ u) = nopair CHR ''s'' CHR ''p'' u"
  by (rule nopair_concat) (auto simp: split_word_label)

lemma one_source_input:
  "occurrences ''[0:v]'' (fst (build_filter_complex_for_targets ts)) = 1"
proof -
  define R where "R = str_int (int (length ts)) @ concat (map split_label [0..<length ts])
                      @ CHR '';'' # join '';'' (chains_of ts)"
  have np: "nopair CHR ''['' CHR ''0'' (''split='' @ R)"
    using chains_source_pad [of ts "[]"]
    by (simp add: R_def labels_source_pad)
  have "occurrences ''[0:v]'' (''split='' @ R) = 0"
    using occurrences_nopair [OF np, of "'':v]''"] by simp
  moreover have "fst (build_filter_complex_for_targets ts) = ''[0:v]'' @ ''split='' @ R"
    by (simp add: filter_complex_text split_stage_def R_def)
  ultimately show ?thesis by simp
qed

lemma one_split_stage:
  "occurrences ''split='' (fst (build_filter_complex_for_targets ts)) = 1"
proof -
  define R where "R = str_int (int (length ts)) @ concat (map split_label [0..<length ts])
                      @ CHR '';'' # join '';'' (chains_of ts)"
  have np: "nopair CHR ''s'' CHR ''p'' (''plit='' @ R)"
    using chains_split_word [of ts "[]"]
    by (simp add: R_def labels_split_word)
  have "occurrences ''split='' (''plit='' @ R) = 0"
    using occurrences_nopair [OF np, of "''lit=''"] by simp
  moreover have "fst (build_filter_complex_for_targets ts) = ''[0:v]s'' @ ''plit='' @ R"
    by (simp add: filter_complex_text split_stage_def R_def)
  ultimately show ?thesis by simp
qed

lemma chains_of_nth:
  assumes "i < length ts"
  shows "chains_of ts ! i = scale_chain i (ts ! i)"
  using assms by (simp add: chains_of_def nth_enumerate_eq)

lemma out_labels_eq:
  "snd (build_filter_complex_for_targets ts) = map out_label [0..<length ts]"
proof -
  have e: "[0..<length ts] = map fst (enumerate 0 ts)" by simp
  show ?thesis
    by (subst e)
       (simp add: build_filter_complex_for_targets_def Let_def case_prod_unfold comp_def
          del: map_fst_enumerate)
qed

text \<open>
  Claim C2. For a ladder of \<open>N \<ge> 1\<close> renditions the filter graph text reads the source
  video pad \<open>[0:v]\<close> exactly once and has exactly one \<open>split=\<close>; cut at the chain
  separator \<open>;\<close> it consists of \<open>N + 1\<close> chains: the split stage, which takes
  \<open>[0:v]\<close> and has the \<open>N\<close> outputs \<open>[v0] \<dots> [v(N-1)]\<close>, and one chain for each
  rendition \<open>i\<close>, which takes \<open>[vi]\<close>, scales to the rendition's width and height
  with the bicubic kernel, sets the pixel format \<open>yuv420p\<close> and \<open>setsar=1\<close>, and ends
  in the output label \<open>[vio]\<close>; the returned labels are \<open>v0o \<dots> v(N-1)o\<close>.
\<close>

theorem filter_graph_structure:
  assumes "ts \<noteq> []"
  shows "occurrences ''[0:v]'' (fst (build_filter_complex_for_targets ts)) = 1
       \<and> occurrences ''split='' (fst (build_filter_complex_for_targets ts)) = 1
       \<and> length (split_on CHR '';'' (fst (build_filter_complex_for_targets ts))) = length ts + 1
       \<and> split_on CHR '';'' (fst (build_filter_complex_for_targets ts)) ! 0
           = ''[0:v]split='' @ str_int (int (length ts))
               @ concat (map (\<lambda>i. ''[v'' @ str_int (int i) @ '']'') [0..<length ts])
       \<and> (\<forall>i < length ts.
             split_on CHR '';'' (fst (build_filter_complex_for_targets ts)) ! Suc i
               = ''[v'' @ str_int (int i) @ '']scale=w='' @ str_int (width (ts ! i))
                   @ '':h='' @ str_int (height (ts ! i))
                   @ '':flags=bicubic,format=yuv420p,setsar=1[v'' @ str_int (int i) @ ''o]'')
       \<and> snd (build_filter_complex_for_targets ts)
           = map (\<lambda>i. ''v'' @ str_int (int i) @ ''o'') [0..<length ts]"
proof -
  have st: "split_on CHR '';'' (fst (build_filter_complex_for_targets ts))
              = split_stage (length ts) # chains_of ts"
    by (rule filter_complex_stages [OF assms])
  have len: "length (split_on CHR '';'' (fst (build_filter_complex_for_targets ts))) = length ts + 1"
    by (simp add: st chains_of_def)
  have first: "split_on CHR '';'' (fst (build_filter_complex_for_targets ts)) ! 0
           = ''[0:v]split='' @ str_int (int (length ts))
               @ concat (map (\<lambda>i. ''[v'' @ str_int (int i) @ '']'') [0..<length ts])"
    by (simp add: st split_stage_def split_label_def [abs_def])
  have chain: "\<forall>i < length ts.
             split_on CHR '';'' (fst (build_filter_complex_for_targets ts)) ! Suc i
               = ''[v'' @ str_int (int i) @ '']scale=w='' @ str_int (width (ts ! i))
                   @ '':h='' @ str_int (height (ts ! i))
                   @ '':flags=bicubic,format=yuv420p,setsar=1[v'' @ str_int (int i) @ ''o]''"
  proof (intro allI impI)
    fix i assume i: "i < length ts"
    obtain w h br name where t: "ts ! i = (w, h, br, name)" by (cases "ts ! i")
    show "split_on CHR '';'' (fst (build_filter_complex_for_targets ts)) ! Suc i
               = ''[v'' @ str_int (int i) @ '']scale=w='' @ str_int (width (ts ! i))
                   @ '':h='' @ str_int (height (ts ! i))
                   @ '':flags=bicubic,format=yuv420p,setsar=1[v'' @ str_int (int i) @ ''o]''"
      by (simp add: st chains_of_nth [OF i] t scale_chain_def out_label_def width_def height_def)
  qed
  have labels: "snd (build_filter_complex_for_targets ts)
           = map (\<lambda>i. ''v'' @ str_int (int i) @ ''o'') [0..<length ts]"
    by (simp add: out_labels_eq out_label_def [abs_def])
  from one_source_input one_split_stage len first chain labels show ?thesis
    by blast
qed

theorem filter_graph_structure_witness:
  "[(1920, 1080, 5000000, ''1080p''), (1280, 720, 2800000, ''720p'')] \<noteq> ([] :: rendition list)
   \<and> occurrences ''[0:v]'' (fst (build_filter_complex_for_targets
         [(1920, 1080, 5000000, ''1080p''), (1280, 720, 2800000, ''720p'')])) = 1
   \<and> occurrences ''split='' (fst (build_filter_complex_for_targets
         [(1920, 1080, 5000000, ''1080p''), (1280, 720, 2800000, ''720p'')])) = 1
   \<and> split_on CHR '';'' (fst (build_filter_complex_for_targets
         [(1920, 1080, 5000000, ''1080p''), (1280, 720, 2800000, ''720p'')]))
       = [''[0:v]split=2[v0][v1]'',
          ''[v0]scale=w=1920:h=1080:flags=bicubic,format=yuv420p,setsar=1[v0o]'',
          ''[v1]scale=w=1280:h=720:flags=bicubic,format=yuv420p,setsar=1[v1o]'']
   \<and> snd (build_filter_complex_for_targets
         [(1920, 1080, 5000000, ''1080p''), (1280, 720, 2800000, ''720p'')]) = [''v0o'', ''v1o'']"
proof -
  have ne: "[(1920, 1080, 5000000, ''1080p''), (1280, 720, 2800000, ''720p'')] \<noteq> ([] :: rendition list)"
    by simp
  have ev: "build_filter_complex_for_targets [(1920, 1080, 5000000, ''1080p''), (1280, 720, 2800000, ''720p'')]
    = (''[0:v]split=2[v0][v1];[v0]scale=w=1920:h=1080:flags=bicubic,format=yuv420p,setsar=1[v0o];[v1]scale=w=1280:h=720:flags=bicubic,format=yuv420p,setsar=1[v1o]'',
       [''v0o'', ''v1o''])"
    by (simp add: build_filter_complex_for_targets_def split_label_def out_label_def
          scale_chain_def Let_def str_eval upt_rec)
  from filter_graph_structure [OF ne] show ?thesis
    by (simp add: ev)
qed

section \<open>The master playlist lists the ladder\<close>

lemma split_on_join_trailing:
  "xs \<noteq> [] \<Longrightarrow> \<forall>x \<in> set xs. c \<notin> set x \<Longrightarrow> split_on c (join [c] xs @ [c]) = xs @ [[]]"
proof (induction xs)
  case Nil
  then show ?case by simp
next
  case (Cons x xs)
  show ?case
  proof (cases xs)
    case Nil
    with Cons.prems show ?thesis
      using split_on_append [of c x "[]"] by simp
  next
    case (Cons y ys)
    with Cons.prems Cons.IH show ?thesis by (simp add: split_on_append)
  qed
qed

lemma newline_stream_inf: "newline \<notin> set (stream_inf t)"
  by (cases t) (simp add: stream_inf_def newline_def)

lemma newline_playlist_ref: "newline \<notin> set (playlist_ref t)"
  by (cases t) (simp add: playlist_ref_def newline_def)

lemma newline_master_lines: "\<forall>x \<in> set (hls_master_lines ts). newline \<notin> set x"
  using newline_stream_inf newline_playlist_ref
  by (auto simp: hls_master_lines_def newline_def)

lemma master_text_lines: "split_on newline (hls_master_text ts) = hls_master_lines ts @ [[]]"
proof -
  have "hls_master_lines ts \<noteq> []" by (simp add: hls_master_lines_def)
  then show ?thesis
    unfolding hls_master_text_def
    using split_on_join_trailing [of "hls_master_lines ts" newline] newline_master_lines
    by simp
qed

lemma stream_inf_prefix: "prefix ''#EXT-X-STREAM-INF'' (stream_inf t)"
  by (cases t) (simp add: stream_inf_def)

lemma playlist_ref_prefix: "\<not> prefix ''#EXT-X-STREAM-INF'' (playlist_ref t)"
proof -
  obtain w h br n where t: "t = (w, h, br, n)" by (cases t)
  obtain c r where cr: "str_int h = c # r" and c: "c \<in> set ''-0123456789''"
    using str_int_hd by blast
  from c have "c \<noteq> CHR ''#''" by auto
  with cr t show ?thesis by (simp add: playlist_ref_def)
qed

lemma stream_inf_entries:
  "filter (prefix ''#EXT-X-STREAM-INF'') (concat (map (\<lambda>t. [stream_inf t, playlist_ref t]) ts))
     = map stream_inf ts"
  by (induction ts) (simp_all add: stream_inf_prefix playlist_ref_prefix)

lemma master_stream_inf_lines:
  "filter (prefix ''#EXT-X-STREAM-INF'') (split_on newline (hls_master_text ts)) = map stream_inf ts"
  by (simp add: master_text_lines hls_master_lines_def stream_inf_entries)

lemma write_file_result:
  assumes "write_file fail p c w = (Return (), w')"
  shows "files w' p = Some c"
  using assms
  by (auto simp: write_file_def os_call_def split: option.splits if_splits)

text \<open>
  Claim C4. When the master playlist is written, the file \<open><hls_dir>/<base>.m3u8\<close>
  holds, line by line, the two header lines and then for every rendition of the ladder,
  in the ladder's order, one \<open>#EXT-X-STREAM-INF\<close> line whose \<open>BANDWIDTH\<close> is the
  rendition's bitrate plus \<open>128000\<close> and whose \<open>RESOLUTION\<close> is its width, an \<open>x\<close> and
  its height, followed by the line \<open><height>/index.m3u8\<close>; the lines that start with
  \<open>#EXT-X-STREAM-INF\<close> are exactly these, one for each rendition.
\<close>

theorem hls_master_playlist:
  assumes "fst (write_hls_master fail hls_dir base ts w) = Return ()"
  shows "files (snd (write_hls_master fail hls_dir base ts w)) (hls_dir @ [base @ ''.m3u8''])
           = Some (Text (hls_master_text ts))
       \<and> split_on newline (hls_master_text ts)
           = ''#EXTM3U'' # ''#EXT-X-VERSION:3''
               # concat (map (\<lambda>t. [''#EXT-X-STREAM-INF:BANDWIDTH='' @ str_int (bitrate t + 128000)
                                       @ '',RESOLUTION='' @ str_int (width t) @ ''x'' @ str_int (height t),
                                     str_int (height t) @ ''/index.m3u8'']) ts)
               @ [[]]
       \<and> filter (prefix ''#EXT-X-STREAM-INF'') (split_on newline (hls_master_text ts))
           = map (\<lambda>t. ''#EXT-X-STREAM-INF:BANDWIDTH='' @ str_int (bitrate t + 128000)
                        @ '',RESOLUTION='' @ str_int (width t) @ ''x'' @ str_int (height t)) ts"
proof -
  have si: "stream_inf = (\<lambda>t. ''#EXT-X-STREAM-INF:BANDWIDTH='' @ str_int (bitrate t + 128000)
                        @ '',RESOLUTION='' @ str_int (width t) @ ''x'' @ str_int (height t))"
    by (rule ext) (simp add: stream_inf_def bitrate_def width_def height_def case_prod_unfold)
  have pr: "playlist_ref = (\<lambda>t. str_int (height t) @ ''/index.m3u8'')"
    by (rule ext) (simp add: playlist_ref_def height_def case_prod_unfold)
  obtain r w' where r: "write_hls_master fail hls_dir base ts w = (r, w')"
    by (cases "write_hls_master fail hls_dir base ts w")
  with assms have "write_file fail (hls_dir @ [base @ ''.m3u8'']) (Text (hls_master_text ts)) w
                     = (Return (), w')"
    by (simp add: write_hls_master_def)
  from write_file_result [OF this] r
  have f: "files (snd (write_hls_master fail hls_dir base ts w)) (hls_dir @ [base @ ''.m3u8''])
           = Some (Text (hls_master_text ts))"
    by simp
  have l: "split_on newline (hls_master_text ts)
           = ''#EXTM3U'' # ''#EXT-X-VERSION:3''
               # concat (map (\<lambda>t. [stream_inf t, playlist_ref t]) ts) @ [[]]"
    by (simp add: master_text_lines hls_master_lines_def)
  from f l master_stream_inf_lines [of ts] show ?thesis
    unfolding si pr by simp
qed

theorem hls_master_playlist_witness:
  "fst (write_hls_master (\<lambda>k. None) [''out'', ''HLS''] ''movie''
          [(1920, 1080, 5000000, ''1080p''), (1280, 720, 2800000, ''720p'')]
          \<lparr>dirs = {[''out'', ''HLS'']}, files = Map.empty, out = [], err = [], ops = 0\<rparr>) = Return ()
   \<and> split_on newline (hls_master_text [(1920, 1080, 5000000, ''1080p''), (1280, 720, 2800000, ''720p'')])
       = [''#EXTM3U'', ''#EXT-X-VERSION:3'',
          ''#EXT-X-STREAM-INF:BANDWIDTH=5128000,RESOLUTION=1920x1080'', ''1080/index.m3u8'',
          ''#EXT-X-STREAM-INF:BANDWIDTH=2928000,RESOLUTION=1280x720'', ''720/index.m3u8'', []]
   \<and> filter (prefix ''#EXT-X-STREAM-INF'')
         (split_on newline (hls_master_text [(1920, 1080, 5000000, ''1080p''), (1280, 720, 2800000, ''720p'')]))
       = [''#EXT-X-STREAM-INF:BANDWIDTH=5128000,RESOLUTION=1920x1080'',
          ''#EXT-X-STREAM-INF:BANDWIDTH=2928000,RESOLUTION=1280x720'']"
proof -
  have h: "fst (write_hls_master (\<lambda>k. None) [''out'', ''HLS''] ''movie''
          [(1920, 1080, 5000000, ''1080p''), (1280, 720, 2800000, ''720p'')]
          \<lparr>dirs = {[''out'', ''HLS'']}, files = Map.empty, out = [], err = [], ops = 0\<rparr>) = Return ()"
    by (simp add: write_hls_master_def write_file_def os_call_def)
  from hls_master_playlist [OF h] h show ?thesis
    by (simp add: bitrate_def width_def height_def str_eval)
qed

section \<open>Rounding to binary64 and the widths in source mode\<close>

lemma round_half_even_error: "\<bar>of_int (round_half_even x) - x\<bar> \<le> 1 / 2"
proof -
  have "of_int \<lfloor>x\<rfloor> \<le> x" "x < of_int \<lfloor>x\<rfloor> + 1"
    by linarith+
  then show ?thesis
    by (auto simp: round_half_even_def Let_def)
qed

lemma round_half_even_of_int [simp]: "round_half_even (of_int n) = n"
  by (simp add: round_half_even_def)

lemma two_powi_pos [simp]: "0 < (2::rat) powi k"
  by simp

lemma two_powi_less_iff: "(2::rat) powi a < 2 powi b \<longleftrightarrow> a < b"
proof
  assume "(2::rat) powi a < 2 powi b"
  show "a < b"
  proof (rule ccontr)
    assume "\<not> a < b"
    then have "b \<le> a" by simp
    then have "(2::rat) powi b \<le> 2 powi a"
      by (intro power_int_increasing) auto
    with \<open>(2::rat) powi a < 2 powi b\<close> show False by simp
  qed
next
  assume "a < b"
  then show "(2::rat) powi a < 2 powi b"
    by (intro power_int_strict_increasing) auto
qed

lemma ilog2_bounds:
  assumes "0 < x"
  shows "2 powi (ilog2 x) \<le> x \<and> x < 2 powi (ilog2 x + 1)"
proof (cases "1 \<le> x")
  case True
  define n where "n = \<lfloor>x\<rfloor>"
  from True have n: "0 < n" by (simp add: n_def)
  have nx: "of_int n \<le> x" "x < of_int n + 1" by (simp_all add: n_def) linarith
  from n have b: "1 \<le> bitlen n" by (auto simp: bitlen_alt_def)
  from bitlen_bounds [OF n] have lo: "2 ^ nat (bitlen n - 1) \<le> n" and hi: "n < 2 ^ nat (bitlen n)"
    by auto
  have k: "ilog2 x = bitlen n - 1" using True by (simp add: ilog2_def n_def)
  have "(2::rat) powi (bitlen n - 1) = 2 ^ nat (bitlen n - 1)"
    using b by (simp add: power_int_def)
  also have "\<dots> = of_int (2 ^ nat (bitlen n - 1))" by simp
  also have "\<dots> \<le> of_int n" using lo by (simp only: of_int_le_iff)
  finally have A: "(2::rat) powi (bitlen n - 1) \<le> x" using nx by simp
  from hi have "n + 1 \<le> 2 ^ nat (bitlen n)" by simp
  then have "(of_int (n + 1) :: rat) \<le> of_int (2 ^ nat (bitlen n))" by (simp only: of_int_le_iff)
  then have "of_int n + 1 \<le> (2::rat) ^ nat (bitlen n)" by simp
  also have "\<dots> = 2 powi (bitlen n)" using b by (simp add: power_int_def)
  finally have B: "x < 2 powi (bitlen n - 1 + 1)" using nx by simp
  from A B k show ?thesis by simp
next
  case False
  define y where "y = 1 / x"
  define m where "m = \<lceil>y\<rceil> - 1"
  from False assms have y1: "1 < y" by (simp add: y_def)
  then have m: "0 < m" unfolding m_def by linarith
  have my: "of_int m < y" "y \<le> of_int m + 1" unfolding m_def by linarith+
  from m have b: "1 \<le> bitlen m" by (auto simp: bitlen_alt_def)
  from bitlen_bounds [OF m] have lo: "2 ^ nat (bitlen m - 1) \<le> m" and hi: "m < 2 ^ nat (bitlen m)"
    by auto
  have k: "ilog2 x = - bitlen m" using False by (simp add: ilog2_def m_def y_def)
  have xy: "x = 1 / y" using assms by (simp add: y_def)
  from hi have "m + 1 \<le> 2 ^ nat (bitlen m)" by simp
  then have "(of_int (m + 1) :: rat) \<le> of_int (2 ^ nat (bitlen m))" by (simp only: of_int_le_iff)
  then have "y \<le> (2::rat) ^ nat (bitlen m)" using my by simp
  then have "1 / (2::rat) ^ nat (bitlen m) \<le> 1 / y"
    using y1 by (intro divide_left_mono) auto
  moreover have "(2::rat) powi (- bitlen m) = 1 / 2 ^ nat (bitlen m)"
    using b by (simp add: power_int_def field_simps)
  ultimately have A: "(2::rat) powi (- bitlen m) \<le> x" using xy by simp
  have "(of_int (2 ^ nat (bitlen m - 1)) :: rat) \<le> of_int m" using lo by (simp only: of_int_le_iff)
  then have "(2::rat) ^ nat (bitlen m - 1) \<le> of_int m" by simp
  with my have "(2::rat) ^ nat (bitlen m - 1) < y" by linarith
  then have "1 / y < 1 / (2::rat) ^ nat (bitlen m - 1)"
    using y1 by (intro divide_strict_left_mono) auto
  moreover have "(2::rat) powi (- bitlen m + 1) = 1 / 2 ^ nat (bitlen m - 1)"
  proof -
    have "- bitlen m + 1 = - (bitlen m - 1)" by simp
    then have "(2::rat) powi (- bitlen m + 1) = 2 powi (- (bitlen m - 1))" by simp
    also have "\<dots> = 1 / 2 powi (bitlen m - 1)" by (rule power_int_minus_divide)
    also have "\<dots> = 1 / 2 ^ nat (bitlen m - 1)" using b by (simp add: power_int_def)
    finally show ?thesis .
  qed
  ultimately have B: "x < 2 powi (- bitlen m + 1)" using xy by simp
  from A B k show ?thesis by simp
qed

lemma float_round_zero [simp]: "float_round 0 = Some 0"
  by (simp add: float_round_def)

lemma float_round_normal:
  assumes lo: "2 powi (- 1022) \<le> \<bar>x::rat\<bar>" and hi: "\<bar>x\<bar> < 2 powi 1023"
  shows "\<exists>y::rat. float_round x = Some y \<and> \<bar>y - x\<bar> \<le> \<bar>x\<bar> / 2 ^ 53"
proof -
  define L where "L = ilog2 \<bar>x\<bar>"
  define e where "e = L - 52"
  define z :: rat where "z = x / 2 powi e"
  define y :: rat where "y = of_int (round_half_even z) * 2 powi e"
  have pos: "0 < \<bar>x\<bar>"
  proof -
    have "(0::rat) < 2 powi (- 1022)" by (rule two_powi_pos)
    with lo show ?thesis by linarith
  qed
  then have x0: "x \<noteq> 0" by auto
  from ilog2_bounds [OF pos] have Llo: "2 powi L \<le> \<bar>x\<bar>" and Lhi: "\<bar>x\<bar> < 2 powi (L + 1)"
    by (auto simp: L_def)
  from lo Lhi have "(2::rat) powi (- 1022) < 2 powi (L + 1)" by linarith
  then have "- 1022 < L + 1" by (simp only: two_powi_less_iff)
  then have emax: "max (ilog2 \<bar>x\<bar> - 52) (- 1074) = e" by (simp add: e_def L_def)
  have epos: "0 < (2::rat) powi e" by (rule two_powi_pos)
  have pe: "(2::rat) powi e = 2 powi L / 2 ^ 52"
  proof -
    have "(2::rat) powi (L - 52) = 2 powi L / 2 powi 52"
      by (rule power_int_diff) simp
    then show ?thesis by (simp add: e_def)
  qed
  have zx: "z * 2 powi e = x" using epos by (simp add: z_def)
  have "\<bar>y - x\<bar> = \<bar>(of_int (round_half_even z) - z) * 2 powi e\<bar>"
    using zx by (simp add: y_def algebra_simps)
  also have "\<dots> = \<bar>of_int (round_half_even z) - z\<bar> * 2 powi e"
    using epos by (simp add: abs_mult)
  also have "\<dots> \<le> (1 / 2) * 2 powi e"
    using round_half_even_error [of z] epos by (intro mult_right_mono) auto
  also have "\<dots> = 2 powi L / 2 ^ 53" by (simp add: pe)
  also have "\<dots> \<le> \<bar>x\<bar> / 2 ^ 53"
    using Llo by (intro divide_right_mono) auto
  finally have err: "\<bar>y - x\<bar> \<le> \<bar>x\<bar> / 2 ^ 53" .
  have "\<bar>y\<bar> \<le> \<bar>x\<bar> + \<bar>y - x\<bar>" by linarith
  also have "\<dots> \<le> \<bar>x\<bar> + \<bar>x\<bar> / 2 ^ 53" using err by linarith
  also have "\<dots> \<le> \<bar>x\<bar> + \<bar>x\<bar>"
  proof -
    have "\<bar>x\<bar> / 2 ^ 53 \<le> \<bar>x\<bar> / 1"
      by (intro divide_left_mono) auto
    then show ?thesis by simp
  qed
  also have "\<dots> < 2 powi 1023 + 2 powi 1023" using hi by linarith
  also have "\<dots> = 2 powi 1024"
  proof -
    have "(2::rat) powi (1023 + 1) = 2 powi 1023 * 2 powi 1"
      by (rule power_int_add) simp
    then show ?thesis by simp
  qed
  finally have "\<not> 2 powi 1024 \<le> \<bar>y\<bar>" by simp
  then have "float_round x = Some y"
    using x0 emax by (simp add: float_round_def Let_def y_def z_def)
  with err show ?thesis by blast
qed

lemma even_floor_bounds: "even (even_floor n) \<and> n - 1 \<le> even_floor n \<and> even_floor n \<le> n"
  unfolding even_floor_def by (cases "n mod 2 = 0") presburger+

lemma known_height_float:
  assumes "RES_MAP r = Some (W0, H0, br)"
  shows "float_of_int H0 = Inr (of_int H0) \<and> 480 \<le> H0 \<and> H0 \<le> 2160"
proof -
  have "float_of_int 2160 = Inr 2160" "float_of_int 1440 = Inr 1440" "float_of_int 1080 = Inr 1080"
    "float_of_int 720 = Inr 720" "float_of_int 480 = Inr 480"
    by (simp_all add: float_eval)
  with RES_MAP_cases [OF assms] show ?thesis by auto
qed

lemma ratio_product:
  fixes w h H :: int
  assumes w: "0 < w" "w < 2 ^ 31" and h: "0 < h" "h < 2 ^ 31" and H: "480 \<le> H" "H \<le> 2160"
  shows "\<exists>a p. py_truediv w h = Inr a \<and> float_mul (of_int H) a = Finite p
           \<and> \<bar>p - of_int H * of_int w / of_int h\<bar> \<le> 1 / 256"
proof -
  define q :: rat where "q = of_int w / of_int h"
  define X :: rat where "X = of_int H * q"
  have wr: "(1::rat) \<le> of_int w" "(of_int w :: rat) \<le> 2 ^ 31"
    using w by (simp_all add: of_int_le_iff [of _ "2 ^ 31", where ?'a = rat, simplified] )
  have hr: "(1::rat) \<le> of_int h" "(of_int h :: rat) \<le> 2 ^ 31"
    using h by (simp_all add: of_int_le_iff [of _ "2 ^ 31", where ?'a = rat, simplified])
  have Hr: "(480::rat) \<le> of_int H" "(of_int H :: rat) \<le> 2160"
    using H by simp_all
  have qlo: "1 / 2 ^ 31 \<le> q"
  proof -
    have "1 / 2 ^ 31 \<le> 1 / (of_int h :: rat)"
      using hr by (intro divide_left_mono) auto
    also have "\<dots> \<le> of_int w / of_int h"
      using wr hr by (intro divide_right_mono) auto
    finally show ?thesis by (simp add: q_def)
  qed
  have qhi: "q \<le> 2 ^ 31"
  proof -
    have "of_int w / (of_int h :: rat) \<le> of_int w / 1"
      using wr hr by (intro divide_left_mono) auto
    with wr show ?thesis by (simp add: q_def)
  qed
  have qpos: "0 < q" using qlo by (rule less_le_trans [rotated]) simp
  have small: "(2::rat) powi (- 1022) \<le> 1 / 2 ^ 40"
  proof -
    have "(2::rat) powi (- 1022) \<le> 2 powi (- 40)"
      by (intro power_int_increasing) auto
    then show ?thesis by (simp add: power_int_minus_divide)
  qed
  have big: "(2::rat) ^ 50 < 2 powi 1023"
  proof -
    have "(2::rat) powi 50 < 2 powi 1023"
      by (intro power_int_strict_increasing) auto
    then show ?thesis by simp
  qed
  have "2 powi (- 1022) \<le> \<bar>q\<bar>" using small qlo qpos by simp
  moreover have "\<bar>q\<bar> < 2 powi 1023" using big qhi qpos by simp
  ultimately obtain a where a: "float_round q = Some a" and ae: "\<bar>a - q\<bar> \<le> \<bar>q\<bar> / 2 ^ 53"
    using float_round_normal [of q] by blast
  from ae qpos have ae': "\<bar>a - q\<bar> \<le> q / 2 ^ 53" by simp
  have div: "py_truediv w h = Inr a"
    using h a by (simp add: py_truediv_def q_def)
  define P :: rat where "P = of_int H * a"
  have alo: "q / 2 \<le> a"
  proof -
    have "q / 2 ^ 53 \<le> q / 2" using qpos by (intro divide_left_mono) auto
    with ae' show ?thesis by linarith
  qed
  have ahi: "a \<le> 2 * q"
  proof -
    have "q / 2 ^ 53 \<le> q / 1" using qpos by (intro divide_left_mono) auto
    then have "q / 2 ^ 53 \<le> q" by simp
    with ae' show ?thesis by linarith
  qed
  have apos: "0 < a" using alo qpos by linarith
  have Plo: "1 / 2 ^ 32 \<le> P"
  proof -
    have "1 / 2 ^ 32 \<le> q / 2" using qlo by simp
    also have "\<dots> \<le> 1 * a" using alo by simp
    also have "\<dots> \<le> of_int H * a" using Hr apos by (intro mult_right_mono) auto
    finally show ?thesis by (simp add: P_def)
  qed
  have Phi: "P \<le> 2 ^ 44"
  proof -
    have "of_int H * a \<le> 2160 * a" using Hr apos by (intro mult_right_mono) auto
    also have "\<dots> \<le> 2160 * (2 * 2 ^ 31)" using ahi qhi by simp
    also have "\<dots> \<le> 2 ^ 44" by simp
    finally show ?thesis by (simp add: P_def)
  qed
  have Ppos: "0 < P" using Plo by (rule less_le_trans [rotated]) simp
  have "2 powi (- 1022) \<le> \<bar>P\<bar>" using small Plo Ppos by simp
  moreover have "\<bar>P\<bar> < 2 powi 1023" using big Phi Ppos by simp
  ultimately obtain p where p: "float_round P = Some p" and pe: "\<bar>p - P\<bar> \<le> \<bar>P\<bar> / 2 ^ 53"
    using float_round_normal [of P] by blast
  from pe Ppos have pe': "\<bar>p - P\<bar> \<le> P / 2 ^ 53" by simp
  have mul: "float_mul (of_int H) a = Finite p"
    using p by (simp add: float_mul_def P_def)
  have PX: "\<bar>P - X\<bar> \<le> 2160 * (q / 2 ^ 53)"
  proof -
    have "\<bar>P - X\<bar> = of_int H * \<bar>a - q\<bar>"
      using Hr by (simp add: P_def X_def abs_mult flip: right_diff_distrib)
    also have "\<dots> \<le> 2160 * \<bar>a - q\<bar>" using Hr by (intro mult_right_mono) auto
    also have "\<dots> \<le> 2160 * (q / 2 ^ 53)" using ae' by simp
    finally show ?thesis .
  qed
  have "\<bar>p - X\<bar> \<le> \<bar>p - P\<bar> + \<bar>P - X\<bar>" by linarith
  also have "\<dots> \<le> P / 2 ^ 53 + 2160 * (q / 2 ^ 53)" using pe' PX by linarith
  also have "\<dots> \<le> 2 ^ 44 / 2 ^ 53 + 2160 * (2 ^ 31 / 2 ^ 53)"
    using Phi qhi by (intro add_mono divide_right_mono mult_left_mono) auto
  also have "\<dots> \<le> 1 / 256" by simp
  finally have "\<bar>p - of_int H * of_int w / of_int h\<bar> \<le> 1 / 256"
    by (simp add: X_def q_def)
  with div mul show ?thesis by blast
qed

lemma source_targets_widths:
  assumes "\<And>r W0 H0 br. RES_MAP r = Some (W0, H0, br)
             \<Longrightarrow> \<exists>p. int_mul_float H0 ar = Inr (Finite p) \<and> Q H0 p"
  shows "\<exists>t. source_targets ar rs = Inr t
           \<and> (\<forall>x \<in> set t. \<exists>p. Q (height x) p \<and> width x = even_floor (round_half_even p))"
proof (induction rs)
  case Nil
  show ?case by simp
next
  case (Cons r rs)
  then obtain t where t: "source_targets ar rs = Inr t"
    and tb: "\<forall>x \<in> set t. \<exists>p. Q (height x) p \<and> width x = even_floor (round_half_even p)"
    by blast
  show ?case
  proof (cases "RES_MAP r")
    case None
    with t tb show ?thesis by simp
  next
    case (Some v)
    obtain W0 H0 br where v: "v = (W0, H0, br)" by (cases v)
    from assms [of r W0 H0 br] Some v obtain p where
      p: "int_mul_float H0 ar = Inr (Finite p)" and q: "Q H0 p" by blast
    have "source_targets ar (r # rs)
            = Inr ((even_floor (round_half_even p), H0, br, str_int H0 @ ''p'') # t)"
      using Some v p t by (simp add: py_round_def)
    moreover have "\<exists>p'. Q (height (even_floor (round_half_even p), H0, br, str_int H0 @ ''p'')) p'
        \<and> width (even_floor (round_half_even p), H0, br, str_int H0 @ ''p'')
            = even_floor (round_half_even p')"
      using q by (auto simp: height_def width_def)
    ultimately show ?thesis using tb by auto
  qed
qed

lemma set_sort_height_desc [simp]: "set (sort_height_desc t) = set t"
  by (simp add: sort_height_desc_def)

lemma rounded_width_bounds:
  fixes p X :: rat
  assumes "\<bar>p - X\<bar> \<le> 1 / 256"
  shows "even (even_floor (round_half_even p))
       \<and> - (1 / 2 + 1 / 256) \<le> X - of_int (even_floor (round_half_even p))
       \<and> X - of_int (even_floor (round_half_even p)) \<le> 3 / 2 + 1 / 256"
proof -
  define n where "n = round_half_even p"
  have a: "\<bar>of_int n - p\<bar> \<le> 1 / 2" unfolding n_def by (rule round_half_even_error)
  from even_floor_bounds [of n] have e: "even (even_floor n)"
    and i1: "n - 1 \<le> even_floor n" and i2: "even_floor n \<le> n"
    by auto
  from i1 have "(of_int (n - 1) :: rat) \<le> of_int (even_floor n)" by (simp only: of_int_le_iff)
  then have b1: "(of_int n :: rat) - 1 \<le> of_int (even_floor n)" by simp
  from i2 have b2: "(of_int (even_floor n) :: rat) \<le> of_int n" by (simp only: of_int_le_iff)
  note b = b1 b2
  from a b assms have "- (1 / 2 + 1 / 256) \<le> X - of_int (even_floor n)"
    and "X - of_int (even_floor n) \<le> 3 / 2 + 1 / 256"
    by linarith+
  with e show ?thesis unfolding n_def by blast
qed

lemma source_products:
  fixes src_w src_h :: int
  assumes "0 \<le> src_w" "src_w < 2 ^ 31" "0 < src_h" "src_h < 2 ^ 31"
  shows "\<exists>ar. py_truediv src_w src_h = Inr ar
           \<and> (\<forall>r W0 H0 br. RES_MAP r = Some (W0, H0, br) \<longrightarrow>
                 (\<exists>p. int_mul_float H0 ar = Inr (Finite p)
                      \<and> \<bar>p - of_int H0 * of_int src_w / of_int src_h\<bar> \<le> 1 / 256))"
proof (cases "src_w = 0")
  case True
  have "py_truediv src_w src_h = Inr 0"
    using assms True by (simp add: py_truediv_def)
  moreover have "\<And>r W0 H0 br. RES_MAP r = Some (W0, H0, br) \<Longrightarrow>
      int_mul_float H0 0 = Inr (Finite 0)"
    using known_height_float by (simp add: int_mul_float_def float_mul_def)
  ultimately show ?thesis using True by auto
next
  case False
  with assms have w: "0 < src_w" by simp
  show ?thesis
  proof -
    obtain a where a: "py_truediv src_w src_h = Inr a"
      using ratio_product [OF w assms(2) assms(3) assms(4), of 480] by auto
    have "\<exists>p. int_mul_float H0 a = Inr (Finite p)
              \<and> \<bar>p - of_int H0 * of_int src_w / of_int src_h\<bar> \<le> 1 / 256"
      if "RES_MAP r = Some (W0, H0, br)" for r W0 H0 br
    proof -
      from known_height_float [OF that] have f: "float_of_int H0 = Inr (of_int H0)"
        and H: "480 \<le> H0" "H0 \<le> 2160" by auto
      from ratio_product [OF w assms(2) assms(3) assms(4) H] a obtain p where
        "float_mul (of_int H0) a = Finite p"
        "\<bar>p - of_int H0 * of_int src_w / of_int src_h\<bar> \<le> 1 / 256" by auto
      with f show ?thesis by (simp add: int_mul_float_def)
    qed
    with a show ?thesis by blast
  qed
qed

text \<open>
  Claim C3, as the code has it. For source dimensions \<open>0 \<le> src_w < 2^31\<close> and
  \<open>0 < src_h < 2^31\<close>, \<open>build_targets\<close> in \<open>source\<close> mode returns a ladder, and every
  rendition in it has an even width: the double-precision product \<open>p\<close> of the height and
  \<open>src_w / src_h\<close>, which is within \<open>1/256\<close> of the exact value, rounded to the nearest
  integer and then down to an even one. The width therefore exceeds
  \<open>height * src_w / src_h\<close> by at most \<open>1/2 + 1/256\<close> and falls short of it by at most
  \<open>3/2 + 1/256\<close> pixel columns.
\<close>

theorem source_mode_widths:
  fixes src_w src_h :: int
  assumes "0 \<le> src_w" "src_w < 2 ^ 31" "0 < src_h" "src_h < 2 ^ 31"
  shows "\<exists>t. build_targets rs ''source'' src_w src_h = Inr t
           \<and> (\<forall>x \<in> set t.
                 even (width x)
               \<and> (\<exists>p :: rat. \<bar>p - of_int (height x) * of_int src_w / of_int src_h\<bar> \<le> 1 / 256
                      \<and> width x = even_floor (round_half_even p))
               \<and> - (1 / 2 + 1 / 256)
                    \<le> (of_int (height x) * of_int src_w / of_int src_h :: rat) - of_int (width x)
               \<and> (of_int (height x) * of_int src_w / of_int src_h :: rat) - of_int (width x)
                    \<le> 3 / 2 + 1 / 256)"
proof -
  from source_products [OF assms] obtain ar where ar: "py_truediv src_w src_h = Inr ar"
    and prod: "\<And>r W0 H0 br. RES_MAP r = Some (W0, H0, br) \<Longrightarrow>
                 \<exists>p. int_mul_float H0 ar = Inr (Finite p)
                      \<and> \<bar>p - of_int H0 * of_int src_w / of_int src_h\<bar> \<le> 1 / 256"
    by blast
  from source_targets_widths [of ar "\<lambda>H p. \<bar>p - of_int H * of_int src_w / of_int src_h\<bar> \<le> 1 / 256" rs]
    prod
  obtain t where t: "source_targets ar rs = Inr t"
    and tb: "\<forall>x \<in> set t. \<exists>p. \<bar>p - of_int (height x) * of_int src_w / of_int src_h\<bar> \<le> 1 / 256
                \<and> width x = even_floor (round_half_even p)"
    by blast
  have bt: "build_targets rs ''source'' src_w src_h = Inr (sort_height_desc t)"
    using assms ar t by (simp add: build_targets_def)
  have "even (width x)
      \<and> (\<exists>p :: rat. \<bar>p - of_int (height x) * of_int src_w / of_int src_h\<bar> \<le> 1 / 256
             \<and> width x = even_floor (round_half_even p))
      \<and> - (1 / 2 + 1 / 256)
           \<le> (of_int (height x) * of_int src_w / of_int src_h :: rat) - of_int (width x)
      \<and> (of_int (height x) * of_int src_w / of_int src_h :: rat) - of_int (width x)
           \<le> 3 / 2 + 1 / 256"
    if "x \<in> set (sort_height_desc t)" for x
  proof -
    from that tb obtain p :: rat where
      p: "\<bar>p - of_int (height x) * of_int src_w / of_int src_h\<bar> \<le> 1 / 256"
      and wx: "width x = even_floor (round_half_even p)"
      by auto
    from rounded_width_bounds [OF p] wx p show ?thesis by auto
  qed
  with bt show ?thesis by blast
qed

theorem source_mode_widths_witness:
  "(0::int) \<le> 1920 \<and> (1920::int) < 2 ^ 31 \<and> (0::int) < 1080 \<and> (1080::int) < 2 ^ 31
   \<and> build_targets [''1080'', ''480''] ''source'' 1920 1080
       = Inr [(1920, 1080, 5000000, ''1080p''), (852, 480, 1400000, ''480p'')]
   \<and> even (width (852, 480, 1400000, ''480p''))
   \<and> - (1 / 2 + 1 / 256)
        \<le> (of_int (height (852, 480, 1400000, ''480p'')) * of_int 1920 / of_int 1080 :: rat)
            - of_int (width (852, 480, 1400000, ''480p''))
   \<and> (of_int (height (852, 480, 1400000, ''480p'')) * of_int 1920 / of_int 1080 :: rat)
        - of_int (width (852, 480, 1400000, ''480p''))
        \<le> 3 / 2 + 1 / 256"
proof -
  have b: "(0::int) \<le> 1920" "(1920::int) < 2 ^ 31" "(0::int) < 1080" "(1080::int) < 2 ^ 31"
    by simp_all
  have h: "build_targets [''1080'', ''480''] ''source'' 1920 1080
       = Inr [(1920, 1080, 5000000, ''1080p''), (852, 480, 1400000, ''480p'')]"
    by (simp add: ladder_eval float_eval str_eval)
  from source_mode_widths [OF b, of "[''1080'', ''480'']"] h
  have "\<forall>x \<in> set [(1920, 1080, 5000000, ''1080p''), (852, 480, 1400000, ''480p'')].
          even (width x)
        \<and> - (1 / 2 + 1 / 256) \<le> (of_int (height x) * of_int 1920 / of_int 1080 :: rat) - of_int (width x)
        \<and> (of_int (height x) * of_int 1920 / of_int 1080 :: rat) - of_int (width x) \<le> 3 / 2 + 1 / 256"
    by auto
  then have "even (width (852, 480, 1400000, ''480p''))
        \<and> - (1 / 2 + 1 / 256)
            \<le> (of_int (height (852, 480, 1400000, ''480p'')) * of_int 1920 / of_int 1080 :: rat)
                - of_int (width (852, 480, 1400000, ''480p''))
        \<and> (of_int (height (852, 480, 1400000, ''480p'')) * of_int 1920 / of_int 1080 :: rat)
            - of_int (width (852, 480, 1400000, ''480p'')) \<le> 3 / 2 + 1 / 256"
    by simp
  with b h show ?thesis by blast
qed

text \<open>
  The bound of one pixel column does not hold: for a 1920x1080 source the 480p rendition
  is 852 wide, and \<open>852 / 480\<close> differs from \<open>1920 / 1080\<close> by more than \<open>1 / 480\<close>.
\<close>

theorem source_mode_one_column_counterexample:
  "build_targets [''480''] ''source'' 1920 1080 = Inr [(852, 480, 1400000, ''480p'')]
   \<and> \<not> \<bar>(of_int (width (852, 480, 1400000, ''480p'')) :: rat)
            / of_int (height (852, 480, 1400000, ''480p'')) - 1920 / 1080\<bar>
         \<le> 1 / of_int (height (852, 480, 1400000, ''480p''))"
  by (simp add: ladder_eval float_eval str_eval)

section \<open>The percentage reported for a progress marker\<close>



lemma is_digit_digit_char: "d < 10 \<Longrightarrow> is_digit (digit_char d)"
  unfolding is_digit_def by (rule digit_char_digit)





























end
